theory Spec2Isabelle
  imports
    Complex_Main
    "HOL-Library.List_Lexorder"
    "HOL-Library.Char_ord"
    "HOL-Library.Log_Nat"
begin

section \<open>Strings and the library functions the suggesters call\<close>

text \<open>
  A Python \<open>str\<close> is a finite sequence of code points, compared lexicographically by
  code point. The engines that never name a concrete character are embedded over
  \<open>'a list\<close> for an arbitrary linearly ordered alphabet \<open>'a\<close> (the order on lists is the
  lexicographic one of \<open>List_Lexorder\<close>, where a proper prefix is smaller). Concrete
  examples are evaluated at \<open>string\<close>.
\<close>

text \<open>\<open>s.startswith(prefix)\<close>: the first \<open>len(prefix)\<close> characters of \<open>s\<close> are \<open>prefix\<close>.\<close>

definition startswith :: "'a list \<Rightarrow> 'a list \<Rightarrow> bool" where
  "startswith s p = (take (length p) s = p)"

text \<open>
  Modelled from the spec: \<open>Levenshtein.distance\<close> belongs to an external package that is
  not part of the sources. It is the edit distance of the glossary: the minimum number
  of single-character insertions, deletions and substitutions turning one string into
  the other, written as the usual recursion on the two heads.
\<close>

fun distance :: "'a list \<Rightarrow> 'a list \<Rightarrow> nat" where
  "distance [] ys = length ys"
| "distance (x # xs) [] = Suc (length xs)"
| "distance (x # xs) (y # ys) =
     min (min (Suc (distance xs (y # ys))) (Suc (distance (x # xs) ys)))
         (distance xs ys + (if x = y then 0 else 1))"

text \<open>
  Modelled from the spec: \<open>bisect.bisect_left\<close> is the standard library's binary search
  for the leftmost insertion point (the first position whose element is \<open>>= x\<close> in a
  sorted list). The loop is the one of the standard library:
  \<^verbatim>\<open>
    lo, hi = 0, len(a)
    while lo < hi:
        mid = (lo + hi) // 2
        if a[mid] < x: lo = mid + 1
        else: hi = mid
    return lo
  \<close>
  Every read \<open>a[mid]\<close> is in range, since \<open>lo <= mid < hi <= len(a)\<close>.
\<close>

function bisect_left_loop :: "'a::linorder list \<Rightarrow> 'a \<Rightarrow> nat \<Rightarrow> nat \<Rightarrow> nat" where
  "bisect_left_loop a x lo hi =
     (if lo < hi then
        (let mid = (lo + hi) div 2 in
         if a ! mid < x then bisect_left_loop a x (mid + 1) hi
         else bisect_left_loop a x lo mid)
      else lo)"
  by pat_completeness auto
termination
  by (relation "measure (\<lambda>(a, x, lo, hi). hi - lo)") auto

declare bisect_left_loop.simps [simp del]

definition bisect_left :: "'a::linorder list \<Rightarrow> 'a \<Rightarrow> nat" where
  "bisect_left a x = bisect_left_loop a x 0 (length a)"

section \<open>BruteForceSuggester\<close>

record 'a BruteForceSuggester =
  data :: "'a list list"

definition BruteForceSuggester_init :: "'a BruteForceSuggester" where
  "BruteForceSuggester_init = \<lparr>BruteForceSuggester.data = []\<rparr>"

text \<open>\<open>for s in suggestions: self.data.append(s)\<close>\<close>

definition BruteForceSuggester_index ::
  "'a BruteForceSuggester \<Rightarrow> 'a list list \<Rightarrow> 'a BruteForceSuggester" where
  "BruteForceSuggester_index self suggestions =
     fold (\<lambda>s self. self\<lparr>BruteForceSuggester.data := BruteForceSuggester.data self @ [s]\<rparr>)
       suggestions self"

text \<open>The generator, fully consumed: every stored entry that starts with the prefix.\<close>

definition BruteForceSuggester_search ::
  "'a BruteForceSuggester \<Rightarrow> 'a list \<Rightarrow> 'a list list" where
  "BruteForceSuggester_search self prefix =
     filter (\<lambda>s. startswith s prefix) (BruteForceSuggester.data self)"

text \<open>
  \<open>s[0:length]\<close> with \<open>length = len(prefix) >= 0\<close> is \<open>take len s\<close> (the whole of
  \<open>s\<close> when it is shorter). \<open>max_edit_distance\<close> is a Python \<open>int\<close>.
\<close>

definition BruteForceSuggester_search_leveinshtein ::
  "'a BruteForceSuggester \<Rightarrow> 'a list \<Rightarrow> int \<Rightarrow> 'a list list" where
  "BruteForceSuggester_search_leveinshtein self prefix max_edit_distance =
     (let len = length prefix in
      filter (\<lambda>s. int (distance prefix (take len s)) \<le> max_edit_distance)
        (BruteForceSuggester.data self))"

section \<open>BinarySearchSuggester\<close>

record 'a BinarySearchSuggester =
  data :: "'a list list"

definition BinarySearchSuggester_init :: "'a BinarySearchSuggester" where
  "BinarySearchSuggester_init = \<lparr>BinarySearchSuggester.data = []\<rparr>"

text \<open>
  The appends of the loop, then \<open>self.data.sort()\<close>. Python's sort is stable and
  orders strings lexicographically by code point; so does \<open>sort\<close> on lists over a
  linear order.
\<close>

definition BinarySearchSuggester_index ::
  "('a::linorder) BinarySearchSuggester \<Rightarrow> 'a list list \<Rightarrow> 'a BinarySearchSuggester" where
  "BinarySearchSuggester_index self suggestions =
     (let self = fold (\<lambda>s self.
            self\<lparr>BinarySearchSuggester.data := BinarySearchSuggester.data self @ [s]\<rparr>)
          suggestions self
      in self\<lparr>BinarySearchSuggester.data := sort (BinarySearchSuggester.data self)\<rparr>)"

text \<open>
  The scan from the insertion point yields while the entries start with the prefix and
  breaks at the first one that does not: \<open>takeWhile\<close> on the slice \<open>data[start_position:]\<close>.
\<close>

definition BinarySearchSuggester_search ::
  "('a::linorder) BinarySearchSuggester \<Rightarrow> 'a list \<Rightarrow> 'a list list" where
  "BinarySearchSuggester_search self prefix =
     (let start_position = bisect_left (BinarySearchSuggester.data self) prefix in
      takeWhile (\<lambda>suggestion. startswith suggestion prefix)
        (drop start_position (BinarySearchSuggester.data self)))"

section \<open>EdgeNGramSuggester\<close>

text \<open>
  A Python \<open>dict\<close> from strings to lists of strings is a map to lists. Both n-gram
  indexes fill it with the same statement,
  \<^verbatim>\<open>
    if ngram not in self.data: self.data[ngram] = [s]
    else: self.data[ngram].append(s)
  \<close>
\<close>

definition add_to_bucket ::
  "('k \<rightharpoonup> 'v list) \<Rightarrow> 'k \<Rightarrow> 'v \<Rightarrow> ('k \<rightharpoonup> 'v list)" where
  "add_to_bucket d ngram s =
     (case d ngram of None \<Rightarrow> d(ngram \<mapsto> [s]) | Some bucket \<Rightarrow> d(ngram \<mapsto> bucket @ [s]))"

text \<open>\<open>d.get(k, [])\<close>: the bucket of a key, empty when the key is absent.\<close>

definition bucket :: "('k \<rightharpoonup> 'v list) \<Rightarrow> 'k \<Rightarrow> 'v list" where
  "bucket d k = (case d k of None \<Rightarrow> [] | Some b \<Rightarrow> b)"

record 'a EdgeNGramSuggester =
  data :: "'a list \<rightharpoonup> 'a list list"

definition EdgeNGramSuggester_init :: "'a EdgeNGramSuggester" where
  "EdgeNGramSuggester_init = \<lparr>EdgeNGramSuggester.data = Map.empty\<rparr>"

text \<open>\<open>for s in suggestions: for i in range(len(s)): ngram = s[0:i + 1]; ...\<close>\<close>

definition EdgeNGramSuggester_index ::
  "'a EdgeNGramSuggester \<Rightarrow> 'a list list \<Rightarrow> 'a EdgeNGramSuggester" where
  "EdgeNGramSuggester_index self suggestions =
     fold (\<lambda>s self.
        fold (\<lambda>i self.
           (let ngram = take (i + 1) s in
            self\<lparr>EdgeNGramSuggester.data := add_to_bucket (EdgeNGramSuggester.data self) ngram s\<rparr>))
          [0..<length s] self)
       suggestions self"

text \<open>The bucket of the prefix in insertion order; nothing when the key is absent.\<close>

definition EdgeNGramSuggester_search :: "'a EdgeNGramSuggester \<Rightarrow> 'a list \<Rightarrow> 'a list list" where
  "EdgeNGramSuggester_search self prefix =
     (case EdgeNGramSuggester.data self prefix of Some b \<Rightarrow> b | None \<Rightarrow> [])"

section \<open>The n-gram tokenizer\<close>

text \<open>
  \<open>sentinel * n\<close> repeats a string \<open>n\<close> times and is empty for \<open>n <= 0\<close>.
\<close>

definition str_mul :: "'a list \<Rightarrow> int \<Rightarrow> 'a list" where
  "str_mul s n = concat (replicate (nat n) s)"

text \<open>
  \<open>text[i:j]\<close> for Python integers: a negative bound counts from the end, both bounds
  are clamped to \<open>[0, len(text)]\<close>, and the slice is empty when the start is not below
  the stop. A slice never raises.
\<close>

definition slice_bound :: "nat \<Rightarrow> int \<Rightarrow> nat" where
  "slice_bound n i = (if i < 0 then nat (max 0 (int n + i)) else min n (nat i))"

definition slice :: "'a list \<Rightarrow> int \<Rightarrow> int \<Rightarrow> 'a list" where
  "slice text i j =
     (let lo = slice_bound (length text) i; hi = slice_bound (length text) j
      in take (hi - lo) (drop lo text))"

text \<open>
  The generator \<open>ngrams\<close>, fully consumed. \<open>size'\<close> is the Python \<open>int\<close> \<open>size\<close>; the source has no
  check on it, and no statement of the body can raise. \<open>range(end)\<close> is \<open>[0..end - 1]\<close>,
  empty when \<open>end <= 0\<close>.
\<close>

definition ngrams :: "'a list \<Rightarrow> int \<Rightarrow> 'a list \<Rightarrow> 'a list list" where
  "ngrams text size' sentinel =
     (let padding = str_mul sentinel (size' - 1);
          text = padding @ text;
          len = int (length text);
          end = len - size' + 1
      in map (\<lambda>i. slice text i (i + size')) [0..end - 1])"

section \<open>Python floats\<close>

text \<open>
  A Python \<open>float\<close> is an IEEE 754 binary64 number, with a significand of 53 bits
  (\<open>sys.float_info.mant_dig\<close>). A finite float is embedded as the real number it
  denotes, and an operation returns its exact result rounded to the nearest such
  number, ties going to the even significand. The operands of the suggesters are counts
  and lengths of Python sequences and the quotients of two of them, all far inside the
  range of the normal numbers: the bounds of the exponent (overflow, subnormal numbers),
  infinities and NaN are not part of the embedding. A \<open>match_percentage\<close> is any finite
  number, float or int, which Python compares with a float by value.
\<close>

text \<open>The integer nearest to \<open>x\<close>, the even one of the two when \<open>x\<close> is half-way.\<close>

definition round_half_even :: "real \<Rightarrow> int" where
  "round_half_even x =
     (let f = \<lfloor>x\<rfloor>; d = x - of_int f in
      if d < 1 / 2 then f
      else if 1 / 2 < d then f + 1
      else if even f then f else f + 1)"

text \<open>For \<open>x > 0\<close>, the exponent \<open>e\<close> with \<open>2 ** e <= x < 2 ** (e + 1)\<close>.\<close>

definition float_exponent :: "real \<Rightarrow> int" where
  "float_exponent x =
     (if 1 \<le> x then bitlen \<lfloor>x\<rfloor> - 1 else - bitlen (\<lceil>1 / x\<rceil> - 1))"

text \<open>
  Rounding to 53 significant bits: between \<open>2 ** e\<close> and \<open>2 ** (e + 1)\<close> the floats are
  the multiples of \<open>2 ** (e - 52)\<close>.
\<close>

definition float_round :: "real \<Rightarrow> real" where
  "float_round x =
     (if x = 0 then 0
      else
        (let a = \<bar>x\<bar>;
             ulp = 2 powi (float_exponent a - 52)
         in sgn x * (of_int (round_half_even (a / ulp)) * ulp)))"

text \<open>
  The conversion of an int operand of a float operation, \<open>float.__mul__\<close> and
  \<open>float.__truediv__\<close> (whose caller has excluded a zero divisor).
\<close>

definition float_of_int :: "int \<Rightarrow> real" where
  "float_of_int n = float_round (of_int n)"

definition float_mul :: "real \<Rightarrow> real \<Rightarrow> real" where
  "float_mul a b = float_round (a * b)"

definition float_truediv :: "real \<Rightarrow> real \<Rightarrow> real" where
  "float_truediv a b = float_round (a / b)"

section \<open>NGramSuggester\<close>

text \<open>
  \<open>NGramSuggester\<close> tokenizes with the default sentinel \<open>"_"\<close>, a concrete character, so
  its strings are embedded as \<open>string\<close>; a \<open>char\<close> stands for a code point here.
\<close>

record NGramSuggester =
  data :: "string \<rightharpoonup> string list"
  ngram_size :: int

definition NGramSuggester_init :: "int \<Rightarrow> NGramSuggester" where
  "NGramSuggester_init n = \<lparr>NGramSuggester.data = Map.empty, ngram_size = n\<rparr>"

definition NGramSuggester_index :: "NGramSuggester \<Rightarrow> string list \<Rightarrow> NGramSuggester" where
  "NGramSuggester_index self suggestions =
     fold (\<lambda>s self.
        fold (\<lambda>ngram self.
           self\<lparr>NGramSuggester.data := add_to_bucket (NGramSuggester.data self) ngram s\<rparr>)
          (ngrams s (ngram_size self) ''_'') self)
       suggestions self"

text \<open>
  The local dict \<open>suggestions\<close> keeps its keys in the order of their first insertion:
  an association list, where \<open>suggestions[s] += 1\<close> updates in place and
  \<open>suggestions[s] = 1\<close> appends a new key.
\<close>

fun increment :: "('k \<times> nat) list \<Rightarrow> 'k \<Rightarrow> ('k \<times> nat) list" where
  "increment [] s = [(s, 1)]"
| "increment ((k, c) # rest) s =
     (if k = s then (k, c + 1) # rest else (k, c) # increment rest s)"

text \<open>
  The tally loop shared by \<open>search\<close> and \<open>search_leveinshtein\<close> (the same statements
  in both): \<open>for ngram in grams: for s in self.data.get(ngram, []): ...\<close>
\<close>

definition tally :: "NGramSuggester \<Rightarrow> string list \<Rightarrow> (string \<times> nat) list" where
  "tally self grams =
     fold (\<lambda>ngram suggestions.
        fold (\<lambda>s suggestions. increment suggestions s)
          (bucket (NGramSuggester.data self) ngram)
          suggestions)
       grams []"

text \<open>
  The only statement of the suggesters that can raise is the float division
  \<open>gram_count * 1.0 / total_grams\<close>, when \<open>total_grams = 0\<close>.
\<close>

datatype error = ZeroDivisionError

text \<open>
  The yielding loop of \<open>search\<close>, fully consumed: the list of the strings yielded, or
  the error raised on the way. In \<open>gram_count * 1.0 / total_grams\<close> both counts are
  converted to floats, and the product and the quotient are float operations.
\<close>

fun search_loop :: "(string \<times> nat) list \<Rightarrow> nat \<Rightarrow> real \<Rightarrow> error + string list" where
  "search_loop [] total_grams match_percentage = Inr []"
| "search_loop ((s, gram_count) # rest) total_grams match_percentage =
     (if total_grams = 0 then Inl ZeroDivisionError
      else
        (let percentage =
               float_truediv (float_mul (float_of_int (int gram_count)) 1)
                 (float_of_int (int total_grams)) in
         case search_loop rest total_grams match_percentage of
           Inl e \<Rightarrow> Inl e
         | Inr ys \<Rightarrow> Inr (if percentage > match_percentage then s # ys else ys)))"

definition NGramSuggester_search :: "NGramSuggester \<Rightarrow> string \<Rightarrow> real \<Rightarrow> error + string list" where
  "NGramSuggester_search self prefix match_percentage =
     (let grams = ngrams prefix (ngram_size self) ''_'';
          total_grams = length grams;
          suggestions = tally self grams
      in search_loop suggestions total_grams match_percentage)"

text \<open>
  The yielding loop of \<open>search_leveinshtein\<close>: the same threshold, then the distance
  between the prefix and \<open>s[0:len(prefix)]\<close>, strictly below the maximum.
\<close>

fun search_leveinshtein_loop ::
  "(string \<times> nat) list \<Rightarrow> nat \<Rightarrow> string \<Rightarrow> real \<Rightarrow> int \<Rightarrow> error + string list" where
  "search_leveinshtein_loop [] total_grams prefix match_percentage max_leveinshtein_distance = Inr []"
| "search_leveinshtein_loop ((s, gram_count) # rest) total_grams prefix match_percentage
       max_leveinshtein_distance =
     (if total_grams = 0 then Inl ZeroDivisionError
      else
        (let percentage =
               float_truediv (float_mul (float_of_int (int gram_count)) 1)
                 (float_of_int (int total_grams)) in
         case search_leveinshtein_loop rest total_grams prefix match_percentage
                max_leveinshtein_distance of
           Inl e \<Rightarrow> Inl e
         | Inr ys \<Rightarrow>
             Inr (if percentage > match_percentage then
                    (let distance = distance prefix (take (length prefix) s) in
                     if int distance < max_leveinshtein_distance then s # ys else ys)
                  else ys)))"

definition NGramSuggester_search_leveinshtein ::
  "NGramSuggester \<Rightarrow> string \<Rightarrow> real \<Rightarrow> int \<Rightarrow> error + string list" where
  "NGramSuggester_search_leveinshtein self prefix match_percentage max_leveinshtein_distance =
     (let grams = ngrams prefix (ngram_size self) ''_'';
          total_grams = length grams;
          suggestions = tally self grams
      in search_leveinshtein_loop suggestions total_grams prefix match_percentage
           max_leveinshtein_distance)"

section \<open>Properties of the simple suggesters\<close>

lemma distance_eq_0_iff: "distance xs ys = 0 \<longleftrightarrow> xs = ys"
  by (induction xs ys rule: distance.induct) auto

lemma BruteForceSuggester_index_data:
  "BruteForceSuggester.data (BruteForceSuggester_index self xs) =
     BruteForceSuggester.data self @ xs"
  unfolding BruteForceSuggester_index_def
  by (induction xs arbitrary: self) simp_all

lemma BruteForceSuggester_calls_data:
  "BruteForceSuggester.data (fold (\<lambda>xs self. BruteForceSuggester_index self xs) calls self) =
     BruteForceSuggester.data self @ concat calls"
  by (induction calls arbitrary: self) (simp_all add: BruteForceSuggester_index_data)

lemma BinarySearchSuggester_append_data:
  "BinarySearchSuggester.data
     (fold (\<lambda>s self. self\<lparr>BinarySearchSuggester.data := BinarySearchSuggester.data self @ [s]\<rparr>)
        xs self) = BinarySearchSuggester.data self @ xs"
  by (induction xs arbitrary: self) simp_all

lemma BinarySearchSuggester_index_data:
  "BinarySearchSuggester.data (BinarySearchSuggester_index self xs) =
     sort (BinarySearchSuggester.data self @ xs)"
  by (simp add: BinarySearchSuggester_index_def Let_def BinarySearchSuggester_append_data)

lemma BinarySearchSuggester_calls_set:
  "set (BinarySearchSuggester.data
      (fold (\<lambda>xs self. BinarySearchSuggester_index self xs) calls self)) =
   set (BinarySearchSuggester.data self) \<union> set (concat calls)"
  by (induction calls arbitrary: self) (auto simp: BinarySearchSuggester_index_data)

lemma BinarySearchSuggester_calls_sorted:
  "sorted (BinarySearchSuggester.data self) \<Longrightarrow>
   sorted (BinarySearchSuggester.data
      (fold (\<lambda>xs self. BinarySearchSuggester_index self xs) calls self))"
  by (induction calls arbitrary: self) (simp_all add: BinarySearchSuggester_index_data)

text \<open>
  C7. The internal list of a BinarySearchSuggester is sorted in ascending lexicographic
  order when an \<open>index\<close> call returns, whatever the list was before the call and whatever
  strings the call adds; hence it is sorted after every call of any sequence of \<open>index\<close>
  calls on a fresh suggester (each prefix of the sequence is such a sequence).
\<close>

theorem BinarySearchSuggester_index_sorted:
  "sorted (BinarySearchSuggester.data (BinarySearchSuggester_index self suggestions)) \<and>
   sorted (BinarySearchSuggester.data
      (fold (\<lambda>xs self. BinarySearchSuggester_index self xs) calls BinarySearchSuggester_init))"
proof
  show "sorted (BinarySearchSuggester.data (BinarySearchSuggester_index self suggestions))"
    by (simp add: BinarySearchSuggester_index_data)
  show "sorted (BinarySearchSuggester.data
      (fold (\<lambda>xs self. BinarySearchSuggester_index self xs) calls BinarySearchSuggester_init))"
    by (simp add: BinarySearchSuggester_calls_sorted BinarySearchSuggester_init_def)
qed

text \<open>
  C8. On a BruteForceSuggester, the fuzzy search with \<open>max_edit_distance = 0\<close> yields the
  same strings in the same order as the exact-prefix search, for every stored list and
  every prefix.
\<close>

theorem BruteForceSuggester_search_leveinshtein_zero:
  "BruteForceSuggester_search_leveinshtein self prefix 0 =
   BruteForceSuggester_search self prefix"
proof -
  have "(int (distance prefix (take (length prefix) s)) \<le> 0) = startswith s prefix" for s
    using distance_eq_0_iff [of prefix "take (length prefix) s"]
    by (auto simp: startswith_def)
  then show ?thesis
    by (simp add: BruteForceSuggester_search_leveinshtein_def BruteForceSuggester_search_def)
qed

section \<open>Binary search against the linear scan\<close>

lemma startswith_le: "startswith s p \<Longrightarrow> p \<le> (s :: 'a::linorder list)"
proof (induction p arbitrary: s)
  case Nil
  then show ?case by simp
next
  case (Cons a p)
  then show ?case by (cases s) (auto simp: startswith_def)
qed

lemma startswith_between:
  "p \<le> s \<Longrightarrow> s \<le> t \<Longrightarrow> startswith t p \<Longrightarrow> startswith s (p :: 'a::linorder list)"
proof (induction p arbitrary: s t)
  case Nil
  then show ?case by (simp add: startswith_def)
next
  case (Cons a p)
  from Cons.prems(3) obtain t' where t: "t = a # t'" and t': "startswith t' p"
    by (cases t) (auto simp: startswith_def)
  from Cons.prems(1) obtain b s' where s: "s = b # s'"
    by (cases s) auto
  from Cons.prems(1,2) s t have "a = b" and "p \<le> s'" and "s' \<le> t'"
    by auto
  with Cons.IH [OF \<open>p \<le> s'\<close> \<open>s' \<le> t'\<close> t'] s show ?case
    by (simp add: startswith_def)
qed

lemma bisect_left_loop_spec:
  "sorted a \<Longrightarrow> lo \<le> hi \<Longrightarrow> hi \<le> length a \<Longrightarrow>
   (\<forall>i<lo. a ! i < x) \<Longrightarrow> (\<forall>i. hi \<le> i \<longrightarrow> i < length a \<longrightarrow> x \<le> a ! i) \<Longrightarrow>
   bisect_left_loop a x lo hi \<le> length a \<and>
   (\<forall>i<bisect_left_loop a x lo hi. a ! i < x) \<and>
   (\<forall>i. bisect_left_loop a x lo hi \<le> i \<longrightarrow> i < length a \<longrightarrow> x \<le> a ! i)"
proof (induction a x lo hi rule: bisect_left_loop.induct)
  case (1 a x lo hi)
  show ?case
  proof (cases "lo < hi")
    case False
    with "1.prems" have "lo = hi" by simp
    moreover have "bisect_left_loop a x lo hi = lo"
      using False by (subst bisect_left_loop.simps) simp
    ultimately show ?thesis using "1.prems" by simp
  next
    case True
    define mid where "mid = (lo + hi) div 2"
    have mid: "lo \<le> mid" "mid < hi" using True by (simp_all add: mid_def)
    show ?thesis
    proof (cases "a ! mid < x")
      case lt: True
      have below: "\<forall>i<mid + 1. a ! i < x"
      proof (intro allI impI)
        fix i assume "i < mid + 1"
        then have "a ! i \<le> a ! mid"
          using "1.prems"(1,3) mid by (intro sorted_nth_mono) auto
        with lt show "a ! i < x" by simp
      qed
      have "bisect_left_loop a x lo hi = bisect_left_loop a x (mid + 1) hi"
        using True lt by (subst bisect_left_loop.simps) (simp add: mid_def Let_def)
      moreover note "1.IH"(1) [OF True mid_def lt "1.prems"(1) _ "1.prems"(3) below "1.prems"(5)]
      ultimately show ?thesis using mid by simp
    next
      case ge: False
      have above: "\<forall>i. mid \<le> i \<longrightarrow> i < length a \<longrightarrow> x \<le> a ! i"
      proof (intro allI impI)
        fix i assume "mid \<le> i" "i < length a"
        then have "a ! mid \<le> a ! i"
          using "1.prems"(1) by (intro sorted_nth_mono) auto
        with ge show "x \<le> a ! i" by simp
      qed
      have "bisect_left_loop a x lo hi = bisect_left_loop a x lo mid"
        using True ge by (subst bisect_left_loop.simps) (simp add: mid_def Let_def)
      moreover note "1.IH"(2) [OF True mid_def ge "1.prems"(1) mid(1) _ "1.prems"(4) above]
      ultimately show ?thesis using mid "1.prems"(3) by simp
    qed
  qed
qed

lemma bisect_left_split:
  assumes "sorted a"
  shows "(\<forall>s\<in>set (take (bisect_left a x) a). s < x) \<and>
         (\<forall>s\<in>set (drop (bisect_left a x) a). x \<le> s)"
proof -
  let ?r = "bisect_left a x"
  have r: "?r \<le> length a" "\<forall>i<?r. a ! i < x" "\<forall>i. ?r \<le> i \<longrightarrow> i < length a \<longrightarrow> x \<le> a ! i"
    using bisect_left_loop_spec [OF assms, of 0 "length a" x]
    by (simp_all add: bisect_left_def)
  have "\<forall>s\<in>set (take ?r a). s < x"
    using r(1,2) by (auto simp: in_set_conv_nth)
  moreover have "\<forall>s\<in>set (drop ?r a). x \<le> s"
    using r(1,3) by (auto simp: in_set_conv_nth)
  ultimately show ?thesis by simp
qed

lemma takeWhile_startswith_sorted:
  "sorted xs \<Longrightarrow> \<forall>s\<in>set xs. p \<le> s \<Longrightarrow>
   takeWhile (\<lambda>s. startswith s p) xs = filter (\<lambda>s. startswith s p) xs"
proof (induction xs)
  case Nil
  then show ?case by simp
next
  case (Cons x xs)
  show ?case
  proof (cases "startswith x p")
    case True
    with Cons show ?thesis by simp
  next
    case False
    have "\<not> startswith y p" if "y \<in> set xs" for y
      using startswith_between [of p x y] Cons.prems that False by auto
    then have "filter (\<lambda>s. startswith s p) xs = []"
      by (simp add: filter_empty_conv)
    with False show ?thesis by simp
  qed
qed

lemma BinarySearchSuggester_search_filter:
  assumes "sorted (BinarySearchSuggester.data self)"
  shows "BinarySearchSuggester_search self p =
         filter (\<lambda>s. startswith s p) (BinarySearchSuggester.data self)"
proof -
  let ?a = "BinarySearchSuggester.data self" and ?P = "\<lambda>s. startswith s p"
  let ?r = "bisect_left ?a p"
  note split = bisect_left_split [OF assms, of p]
  have "\<not> startswith s p" if "s \<in> set (take ?r ?a)" for s
    using split that startswith_le [of s p] by auto
  then have low: "filter ?P (take ?r ?a) = []"
    by (simp add: filter_empty_conv)
  have "sorted (drop ?r ?a)" using assms by (rule sorted_wrt_drop)
  then have "takeWhile ?P (drop ?r ?a) = filter ?P (drop ?r ?a)"
    using split by (intro takeWhile_startswith_sorted) simp_all
  also have "\<dots> = filter ?P (take ?r ?a) @ filter ?P (drop ?r ?a)"
    using low by simp
  also have "\<dots> = filter ?P ?a"
    by (simp only: filter_append [symmetric] append_take_drop_id)
  finally show ?thesis
    by (simp add: BinarySearchSuggester_search_def Let_def)
qed

text \<open>
  C1. After the same sequence of \<open>index\<close> calls on a fresh BinarySearchSuggester and on
  a fresh BruteForceSuggester, \<open>search(p)\<close>, fully consumed, yields the same set of
  strings on both, for every prefix \<open>p\<close>.
\<close>

theorem BinarySearch_BruteForce_search_same_set:
  "set (BinarySearchSuggester_search
          (fold (\<lambda>xs self. BinarySearchSuggester_index self xs) calls BinarySearchSuggester_init) p) =
   set (BruteForceSuggester_search
          (fold (\<lambda>xs self. BruteForceSuggester_index self xs) calls BruteForceSuggester_init) p)"
proof -
  have "sorted (BinarySearchSuggester.data
      (fold (\<lambda>xs self. BinarySearchSuggester_index self xs) calls BinarySearchSuggester_init))"
    by (simp add: BinarySearchSuggester_calls_sorted BinarySearchSuggester_init_def)
  then show ?thesis
    by (simp add: BinarySearchSuggester_search_filter BruteForceSuggester_search_def
        BinarySearchSuggester_calls_set BruteForceSuggester_calls_data
        BinarySearchSuggester_init_def BruteForceSuggester_init_def)
qed

theorem BinarySearch_BruteForce_search_same_set_witness:
  "set (BinarySearchSuggester_search
          (fold (\<lambda>xs self. BinarySearchSuggester_index self xs)
             [[''cat'', ''car''], [''dog'', ''ca'']] BinarySearchSuggester_init) ''ca'') =
   {''cat'', ''car'', ''ca''}"
  using BinarySearch_BruteForce_search_same_set
    [of "[[''cat'', ''car''], [''dog'', ''ca'']]" "''ca''"]
  by (simp add: BruteForceSuggester_search_def BruteForceSuggester_index_def
      BruteForceSuggester_init_def startswith_def)

section \<open>The tokenizer\<close>

lemma slice_in_range:
  "0 \<le> i \<Longrightarrow> 0 \<le> k \<Longrightarrow> slice xs i (i + k) = take (nat k) (drop (nat i) xs)"
  by (cases "nat i \<le> length xs")
     (auto simp: slice_def slice_bound_def Let_def min_def nat_add_distrib)

lemma upto_as_upt: "0 \<le> n \<Longrightarrow> [0..n - 1] = map int [0..<nat n]"
proof -
  assume "0 \<le> n"
  then obtain m where "n = int m" using nonneg_int_cases by blast
  moreover have "[0..int m - 1] = map int [0..<m]"
    by (induction m) (simp_all add: upto_rec2)
  ultimately show ?thesis by simp
qed

lemma length_str_mul: "length (str_mul s n) = nat n * length s"
  by (simp add: str_mul_def length_concat sum_list_replicate)

lemma ngrams_windows_str_mul:
  assumes "1 \<le> size'" and "length sentinel = 1"
  shows "ngrams text size' sentinel =
           map (\<lambda>i. take (nat size') (drop i (str_mul sentinel (size' - 1) @ text)))
             [0..<length text] \<and>
         length (ngrams text size' sentinel) = length text \<and>
         (\<forall>g \<in> set (ngrams text size' sentinel). length g = nat size') \<and>
         length (str_mul sentinel (size' - 1)) = nat size' - 1"
proof -
  define p where "p = str_mul sentinel (size' - 1) @ text"
  have lp: "length (str_mul sentinel (size' - 1)) = nat size' - 1"
    using assms by (simp add: length_str_mul nat_diff_distrib)
  then have len: "int (length p) - size' + 1 = int (length text)"
    using assms by (simp add: p_def)
  have "ngrams text size' sentinel =
      map (\<lambda>i. slice p i (i + size')) [0..(int (length p) - size' + 1) - 1]"
    by (simp only: ngrams_def Let_def p_def)
  also have "\<dots> = map (\<lambda>i. slice p i (i + size')) [0..int (length text) - 1]"
    by (simp only: len)
  also have "\<dots> = map (\<lambda>i. slice p i (i + size')) (map int [0..<length text])"
    by (simp add: upto_as_upt)
  also have "\<dots> = map (\<lambda>i. take (nat size') (drop i p)) [0..<length text]"
    using assms by (simp add: slice_in_range comp_def)
  finally have eq: "ngrams text size' sentinel =
      map (\<lambda>i. take (nat size') (drop i p)) [0..<length text]" .
  have "length (take (nat size') (drop i p)) = nat size'" if "i < length text" for i
    using that lp assms by (simp add: p_def)
  then have all: "\<forall>g \<in> set (ngrams text size' sentinel). length g = nat size'"
    by (auto simp: eq)
  have len': "length (ngrams text size' sentinel) = length text"
    by (simp add: eq)
  from eq have eq': "ngrams text size' sentinel =
      map (\<lambda>i. take (nat size') (drop i (str_mul sentinel (size' - 1) @ text)))
        [0..<length text]"
    by (simp only: p_def)
  from eq' len' all lp show ?thesis by (intro conjI)
qed


lemma length_ngrams: "length (ngrams text size' sentinel) =
   nat (int (length (str_mul sentinel (size' - 1))) + int (length text) - size' + 1)"
  by (simp add: ngrams_def Let_def)

lemma str_mul_single: "str_mul [c] n = replicate (nat n) c"
proof -
  have "concat (replicate m [c]) = replicate m c" for m
    by (induction m) simp_all
  then show ?thesis by (simp add: str_mul_def)
qed

text \<open>
  C5. For every text, every \<open>size >= 1\<close> and every single-character sentinel,
  \<open>ngrams(text, size, sentinel)\<close> yields exactly \<open>len(text)\<close> n-grams: the windows of
  length \<open>size\<close> of the text left-padded with \<open>size - 1\<close> sentinels, at the positions
  \<open>0, 1, ..., len(text) - 1\<close> in this order, each of length \<open>size\<close>.
\<close>

theorem ngrams_windows:
  assumes "1 \<le> size'"
  shows "ngrams text size' [c] =
           map (\<lambda>i. take (nat size') (drop i (replicate (nat (size' - 1)) c @ text)))
             [0..<length text] \<and>
         length (ngrams text size' [c]) = length text \<and>
         (\<forall>g \<in> set (ngrams text size' [c]). length g = nat size')"
proof -
  have l: "length [c] = 1" by simp
  have s: "str_mul [c] (size' - 1) = replicate (nat (size' - 1)) c"
    by (rule str_mul_single)
  note h = ngrams_windows_str_mul [OF assms l, of "text", unfolded s]
  from h show ?thesis by blast
qed

theorem ngrams_windows_witness:
  "(1::int) \<le> 2 \<and> (1::int) \<le> 3 \<and>
   ngrams ''foo'' 2 ''_'' = [''_f'', ''fo'', ''oo''] \<and>
   ngrams ''ab'' 2 ''_'' = [''_a'', ''ab''] \<and>
   ngrams ''a'' 3 ''_'' = [''__a'']"
proof -
  have h2: "(1::int) \<le> 2" and h3: "(1::int) \<le> 3" by simp_all
  have "ngrams ''foo'' 2 ''_'' =
      map (\<lambda>i. take (nat 2) (drop i (replicate (nat (2 - 1)) CHR ''_'' @ ''foo'')))
        [0..<length ''foo'']"
    by (rule ngrams_windows [OF h2, THEN conjunct1])
  also have "\<dots> = [''_f'', ''fo'', ''oo'']" by code_simp
  finally have foo: "ngrams ''foo'' 2 ''_'' = [''_f'', ''fo'', ''oo'']" .
  have "ngrams ''ab'' 2 ''_'' =
      map (\<lambda>i. take (nat 2) (drop i (replicate (nat (2 - 1)) CHR ''_'' @ ''ab'')))
        [0..<length ''ab'']"
    by (rule ngrams_windows [OF h2, THEN conjunct1])
  also have "\<dots> = [''_a'', ''ab'']" by code_simp
  finally have ab: "ngrams ''ab'' 2 ''_'' = [''_a'', ''ab'']" .
  have "ngrams ''a'' 3 ''_'' =
      map (\<lambda>i. take (nat 3) (drop i (replicate (nat (3 - 1)) CHR ''_'' @ ''a'')))
        [0..<length ''a'']"
    by (rule ngrams_windows [OF h3, THEN conjunct1])
  also have "\<dots> = [''__a'']" by code_simp
  finally have a: "ngrams ''a'' 3 ''_'' = [''__a'']" .
  from h2 h3 foo ab a show ?thesis by (intro conjI)
qed




section \<open>The edge n-gram index\<close>

lemma bucket_add_to_bucket:
  "bucket (add_to_bucket d g s) k = bucket d k @ (if k = g then [s] else [])"
  by (simp add: bucket_def add_to_bucket_def split: option.splits)

lemma dom_add_to_bucket: "dom (add_to_bucket d g s) = insert g (dom d)"
  by (auto simp: add_to_bucket_def split: option.splits)

lemma EdgeNGramSuggester_search_bucket:
  "EdgeNGramSuggester_search self k = bucket (EdgeNGramSuggester.data self) k"
  by (simp add: EdgeNGramSuggester_search_def bucket_def split: option.splits)

lemma edge_key_iff:
  "(\<exists>i<length s. take (Suc i) s = k) \<longleftrightarrow> k \<noteq> [] \<and> startswith s k"
proof
  assume "\<exists>i<length s. take (Suc i) s = k"
  then obtain i where "i < length s" "take (Suc i) s = k" by blast
  then show "k \<noteq> [] \<and> startswith s k"
    by (cases s) (auto simp: startswith_def min_def)
next
  assume k: "k \<noteq> [] \<and> startswith s k"
  then have "take (length k) s = k" by (simp add: startswith_def)
  then have "length (take (length k) s) = length k" by simp
  then have "length k \<le> length s" by simp
  with k \<open>take (length k) s = k\<close> have "length k - 1 < length s \<and> take (Suc (length k - 1)) s = k"
    by (cases k) auto
  then show "\<exists>i<length s. take (Suc i) s = k" by blast
qed

lemma edge_inner_bucket:
  "n \<le> length s \<Longrightarrow>
   bucket (EdgeNGramSuggester.data
     (fold (\<lambda>i self.
         self\<lparr>EdgeNGramSuggester.data :=
           add_to_bucket (EdgeNGramSuggester.data self) (take (Suc i) s) s\<rparr>)
       [0..<n] self)) k =
   bucket (EdgeNGramSuggester.data self) k @ (if \<exists>i<n. take (Suc i) s = k then [s] else [])"
proof (induction n)
  case 0
  then show ?case by simp
next
  case (Suc n)
  have "\<not> (\<exists>i<n. take (Suc i) s = take (Suc n) s)"
  proof
    assume "\<exists>i<n. take (Suc i) s = take (Suc n) s"
    then obtain i where "i < n" "take (Suc i) s = take (Suc n) s" by blast
    then have "length (take (Suc i) s) = length (take (Suc n) s)" by simp
    with \<open>i < n\<close> Suc.prems show False by simp
  qed
  moreover have "(\<exists>i<Suc n. take (Suc i) s = k) \<longleftrightarrow>
      (\<exists>i<n. take (Suc i) s = k) \<or> take (Suc n) s = k"
    by (auto simp: less_Suc_eq)
  ultimately show ?case using Suc
    by (auto simp: Let_def bucket_add_to_bucket)
qed

lemma edge_inner_dom:
  "[] \<notin> dom (EdgeNGramSuggester.data self) \<Longrightarrow>
   [] \<notin> dom (EdgeNGramSuggester.data
     (fold (\<lambda>i self.
         self\<lparr>EdgeNGramSuggester.data :=
           add_to_bucket (EdgeNGramSuggester.data self) (take (Suc i) s) s\<rparr>)
       [0..<n] self))"
  if "n \<le> length s"
  using that
proof (induction n)
  case 0
  then show ?case by simp
next
  case (Suc n)
  then have "take (Suc n) s \<noteq> []" by auto
  with Suc show ?case
    by (simp add: Let_def dom_add_to_bucket)
qed

lemma EdgeNGramSuggester_index_Nil: "EdgeNGramSuggester_index self [] = self"
  by (simp add: EdgeNGramSuggester_index_def)

lemma EdgeNGramSuggester_index_Cons:
  "EdgeNGramSuggester_index self (s # xs) =
   EdgeNGramSuggester_index
     (fold (\<lambda>i self.
         self\<lparr>EdgeNGramSuggester.data :=
           add_to_bucket (EdgeNGramSuggester.data self) (take (Suc i) s) s\<rparr>)
       [0..<length s] self) xs"
  by (simp add: EdgeNGramSuggester_index_def Let_def)

lemma EdgeNGramSuggester_index_bucket:
  "bucket (EdgeNGramSuggester.data (EdgeNGramSuggester_index self xs)) k =
   bucket (EdgeNGramSuggester.data self) k @ filter (\<lambda>s. k \<noteq> [] \<and> startswith s k) xs"
proof (induction xs arbitrary: self)
  case Nil
  then show ?case by (simp add: EdgeNGramSuggester_index_Nil)
next
  case (Cons s xs)
  have "(\<exists>i<length s. take (Suc i) s = k) \<longleftrightarrow> k \<noteq> [] \<and> startswith s k"
    using edge_key_iff [of s k] by simp
  then show ?case
    by (simp add: EdgeNGramSuggester_index_Cons Cons.IH edge_inner_bucket)
qed

lemma EdgeNGramSuggester_index_dom:
  "[] \<notin> dom (EdgeNGramSuggester.data self) \<Longrightarrow>
   [] \<notin> dom (EdgeNGramSuggester.data (EdgeNGramSuggester_index self xs))"
proof (induction xs arbitrary: self)
  case Nil
  then show ?case by (simp add: EdgeNGramSuggester_index_Nil)
next
  case (Cons s xs)
  from Cons.prems have "[] \<notin> dom (EdgeNGramSuggester.data
     (fold (\<lambda>i self.
         self\<lparr>EdgeNGramSuggester.data :=
           add_to_bucket (EdgeNGramSuggester.data self) (take (Suc i) s) s\<rparr>)
       [0..<length s] self))"
    by (intro edge_inner_dom) simp_all
  then show ?case
    by (simp add: EdgeNGramSuggester_index_Cons Cons.IH)
qed

lemma EdgeNGramSuggester_calls_bucket:
  "bucket (EdgeNGramSuggester.data
     (fold (\<lambda>xs self. EdgeNGramSuggester_index self xs) calls self)) k =
   bucket (EdgeNGramSuggester.data self) k @
     filter (\<lambda>s. k \<noteq> [] \<and> startswith s k) (concat calls)"
  by (induction calls arbitrary: self) (simp_all add: EdgeNGramSuggester_index_bucket)

lemma EdgeNGramSuggester_calls_dom:
  "[] \<notin> dom (EdgeNGramSuggester.data self) \<Longrightarrow>
   [] \<notin> dom (EdgeNGramSuggester.data
     (fold (\<lambda>xs self. EdgeNGramSuggester_index self xs) calls self))"
  by (induction calls arbitrary: self) (simp_all add: EdgeNGramSuggester_index_dom)

text \<open>
  C6. After any sequence of \<open>index\<close> calls on a fresh EdgeNGramSuggester, for every
  string \<open>s\<close> handed to one of the calls and every \<open>i\<close> with \<open>1 <= i <= len(s)\<close>, the
  sequence yielded by \<open>search(s[0:i])\<close> contains \<open>s\<close>.
\<close>

theorem EdgeNGramSuggester_search_prefix:
  assumes "s \<in> set (concat calls)" and "1 \<le> i" and "i \<le> length s"
  shows "s \<in> set (EdgeNGramSuggester_search
           (fold (\<lambda>C self. EdgeNGramSuggester_index self C) calls EdgeNGramSuggester_init)
           (take i s))"
proof -
  from assms(2,3) have "take i s \<noteq> []" by auto
  moreover have "startswith s (take i s)"
    using assms(3) by (simp add: startswith_def min_def)
  ultimately show ?thesis using assms(1)
    by (simp add: EdgeNGramSuggester_search_bucket EdgeNGramSuggester_calls_bucket)
qed

theorem EdgeNGramSuggester_search_prefix_witness:
  "''cat'' \<in> set (concat [[''dog''], [''cat'', ''car'']]) \<and> (1::nat) \<le> 2 \<and>
   2 \<le> length ''cat'' \<and>
   ''cat'' \<in> set (EdgeNGramSuggester_search
      (fold (\<lambda>C self. EdgeNGramSuggester_index self C) [[''dog''], [''cat'', ''car'']]
         EdgeNGramSuggester_init) ''ca'')"
  using EdgeNGramSuggester_search_prefix [of "''cat''" "[[''dog''], [''cat'', ''car'']]" 2]
  by simp

text \<open>
  C10. After any sequence of \<open>index\<close> calls on a fresh EdgeNGramSuggester, the empty
  string is not a key of the index, \<open>search("")\<close> yields the empty sequence, and no
  search yields the empty string, also when the corpus contains empty strings.
\<close>

theorem EdgeNGramSuggester_no_empty_key:
  "[] \<notin> dom (EdgeNGramSuggester.data
      (fold (\<lambda>C self. EdgeNGramSuggester_index self C) calls EdgeNGramSuggester_init)) \<and>
   EdgeNGramSuggester_search
      (fold (\<lambda>C self. EdgeNGramSuggester_index self C) calls EdgeNGramSuggester_init) [] = [] \<and>
   (\<forall>p. [] \<notin> set (EdgeNGramSuggester_search
      (fold (\<lambda>C self. EdgeNGramSuggester_index self C) calls EdgeNGramSuggester_init) p))"
proof -
  let ?self = "fold (\<lambda>C self. EdgeNGramSuggester_index self C) calls
      (EdgeNGramSuggester_init :: 'a EdgeNGramSuggester)"
  have init: "bucket (EdgeNGramSuggester.data (EdgeNGramSuggester_init :: 'a EdgeNGramSuggester)) k = []" for k
    by (simp add: EdgeNGramSuggester_init_def bucket_def)
  have "[] \<notin> dom (EdgeNGramSuggester.data ?self)"
    by (rule EdgeNGramSuggester_calls_dom) (simp add: EdgeNGramSuggester_init_def)
  moreover have "EdgeNGramSuggester_search ?self [] = []"
    by (simp add: EdgeNGramSuggester_search_bucket EdgeNGramSuggester_calls_bucket init)
  moreover have "[] \<notin> set (EdgeNGramSuggester_search ?self p)" for p
    by (auto simp: EdgeNGramSuggester_search_bucket EdgeNGramSuggester_calls_bucket init
        startswith_def)
  ultimately show ?thesis by blast
qed

theorem EdgeNGramSuggester_no_empty_key_witness:
  "EdgeNGramSuggester_search
      (fold (\<lambda>C self. EdgeNGramSuggester_index self C) [[[]], [''ab'', []]]
         EdgeNGramSuggester_init) [] = [] \<and>
   [] \<notin> set (EdgeNGramSuggester_search
      (fold (\<lambda>C self. EdgeNGramSuggester_index self C) [[[]], [''ab'', []]]
         EdgeNGramSuggester_init) ''a'')"
  using EdgeNGramSuggester_no_empty_key [of "[[[]], [''ab'', []]]"]
  by blast

section \<open>Float rounding\<close>

lemma float_exponent_bounds:
  assumes "0 < x"
  shows "2 powi (float_exponent x) \<le> x \<and> x < 2 powi (float_exponent x + 1)"
proof (cases "1 \<le> x")
  case True
  define m where "m = \<lfloor>x\<rfloor>"
  have m: "0 < m" using True by (simp add: m_def)
  then have b: "1 \<le> bitlen m" by (auto simp: bitlen_alt_def)
  have e: "float_exponent x = bitlen m - 1" using True by (simp add: float_exponent_def m_def)
  from bitlen_bounds [OF m] have lo: "2 ^ nat (bitlen m - 1) \<le> m" and hi: "m < 2 ^ nat (bitlen m)"
    by simp_all
  have "(2::real) powi (bitlen m - 1) = 2 ^ nat (bitlen m - 1)"
    using b by (simp add: power_int_nonneg_exp)
  also have "\<dots> = real_of_int (2 ^ nat (bitlen m - 1))" by simp
  also have "\<dots> \<le> real_of_int m" using lo by (simp only: of_int_le_iff)
  also have "\<dots> \<le> x" by (simp add: m_def)
  finally have 1: "2 powi (bitlen m - 1) \<le> x" .
  have "m + 1 \<le> 2 ^ nat (bitlen m)" using hi by simp
  then have "real_of_int (m + 1) \<le> real_of_int (2 ^ nat (bitlen m))" by (simp only: of_int_le_iff)
  moreover have "x < real_of_int (m + 1)" by (simp add: m_def)
  ultimately have "x < real_of_int (2 ^ nat (bitlen m))" by simp
  also have "\<dots> = 2 powi (bitlen m - 1 + 1)" using b by (simp add: power_int_nonneg_exp)
  finally have 2: "x < 2 powi (bitlen m - 1 + 1)" .
  from 1 2 e show ?thesis by simp
next
  case False
  define m where "m = \<lceil>1 / x\<rceil> - 1"
  have x1: "1 < 1 / x" using False assms by simp
  then have "1 < \<lceil>1 / x\<rceil>" by (simp add: less_ceiling_iff)
  then have m: "0 < m" by (simp add: m_def)
  then have b: "1 \<le> bitlen m" by (auto simp: bitlen_alt_def)
  have e: "float_exponent x = - bitlen m" using False by (simp add: float_exponent_def m_def)
  from bitlen_bounds [OF m] have lo: "2 ^ nat (bitlen m - 1) \<le> m" and hi: "m < 2 ^ nat (bitlen m)"
    by simp_all
  have mlt: "real_of_int m < 1 / x" unfolding m_def by linarith
  have mge: "1 / x \<le> real_of_int (m + 1)" unfolding m_def by simp
  have "m + 1 \<le> 2 ^ nat (bitlen m)" using hi by simp
  then have "real_of_int (m + 1) \<le> real_of_int (2 ^ nat (bitlen m))" by (simp only: of_int_le_iff)
  with mge have "1 / x \<le> 2 ^ nat (bitlen m)" by simp
  then have "1 / 2 ^ nat (bitlen m) \<le> x" using assms by (simp add: field_simps)
  moreover have "(2::real) powi (- bitlen m) = 1 / 2 ^ nat (bitlen m)"
    using b by (simp add: power_int_minus_divide power_int_nonneg_exp)
  ultimately have 1: "2 powi (- bitlen m) \<le> x" by simp
  have "real_of_int (2 ^ nat (bitlen m - 1)) \<le> real_of_int m" using lo by (simp only: of_int_le_iff)
  then have "real_of_int (2 ^ nat (bitlen m - 1)) < 1 / x" using mlt by (rule le_less_trans)
  then have "2 ^ nat (bitlen m - 1) < 1 / x" by simp
  then have "x < 1 / 2 ^ nat (bitlen m - 1)" using assms by (simp add: field_simps)
  moreover have "(2::real) powi (- bitlen m + 1) = 1 / 2 ^ nat (bitlen m - 1)"
  proof -
    have "- bitlen m + 1 = - (bitlen m - 1)" by simp
    then show ?thesis using b by (simp only: power_int_minus_divide) (simp add: power_int_nonneg_exp)
  qed
  ultimately have 2: "x < 2 powi (- bitlen m + 1)" by simp
  from 1 2 e show ?thesis by simp
qed


lemma powi2_add_nat: "(2::real) powi (e + int n) = 2 ^ n * 2 powi e"
proof -
  have "(2::real) powi (int n + e) = 2 powi int n * 2 powi e"
    by (rule power_int_add) simp
  then show ?thesis by (simp add: add.commute)
qed

lemma powi2_52: "(2::real) powi e = 2 ^ 52 * 2 powi (e - 52)"
proof -
  have "e = e - 52 + int 52" by simp
  then have "(2::real) powi e = 2 powi (e - 52 + int 52)" by (rule arg_cong)
  then show ?thesis by (simp only: powi2_add_nat)
qed

lemma powi2_53: "(2::real) powi (e + 1) = 2 ^ 53 * 2 powi (e - 52)"
proof -
  have "e + 1 = e - 52 + int 53" by simp
  then have "(2::real) powi (e + 1) = 2 powi (e - 52 + int 53)" by (rule arg_cong)
  then show ?thesis by (simp only: powi2_add_nat)
qed

lemma float_exponent_unique:
  assumes "0 < x" and "2 powi k \<le> x" and "x < 2 powi (k + 1)"
  shows "float_exponent x = k"
proof -
  let ?e = "float_exponent x"
  from float_exponent_bounds [OF assms(1)]
  have lo: "2 powi ?e \<le> x" and hi: "x < 2 powi (?e + 1)" by simp_all
  have "\<not> ?e < k"
  proof
    assume "?e < k"
    then have "?e + 1 \<le> k" by simp
    then have "(2::real) powi (?e + 1) \<le> 2 powi k" by (rule power_int_increasing) simp
    with hi assms(2) show False by simp
  qed
  moreover have "\<not> k < ?e"
  proof
    assume "k < ?e"
    then have "k + 1 \<le> ?e" by simp
    then have "(2::real) powi (k + 1) \<le> 2 powi ?e" by (rule power_int_increasing) simp
    with lo assms(3) show False by simp
  qed
  ultimately show ?thesis by simp
qed

lemma float_exponent_mono:
  assumes "0 < x" and "x \<le> y"
  shows "float_exponent x \<le> float_exponent y"
proof (rule ccontr)
  assume "\<not> float_exponent x \<le> float_exponent y"
  then have "float_exponent y + 1 \<le> float_exponent x" by simp
  then have "(2::real) powi (float_exponent y + 1) \<le> 2 powi (float_exponent x)"
    by (rule power_int_increasing) simp
  moreover have "0 < y" using assms by simp
  note float_exponent_bounds [OF this] float_exponent_bounds [OF assms(1)]
  ultimately show False using assms(2) by simp
qed

lemma round_half_even_of_int: "round_half_even (of_int k) = k"
  by (simp add: round_half_even_def)

lemma round_half_even_floor:
  "round_half_even x = \<lfloor>x\<rfloor> \<or> round_half_even x = \<lfloor>x\<rfloor> + 1"
  by (simp add: round_half_even_def Let_def)

lemma round_half_even_mono:
  assumes "x \<le> y"
  shows "round_half_even x \<le> round_half_even y"
proof (cases "\<lfloor>x\<rfloor> = \<lfloor>y\<rfloor>")
  case True
  with assms show ?thesis by (auto simp: round_half_even_def Let_def)
next
  case False
  with assms have "\<lfloor>x\<rfloor> + 1 \<le> \<lfloor>y\<rfloor>" using floor_mono [OF assms] by simp
  with round_half_even_floor [of x] round_half_even_floor [of y] show ?thesis by auto
qed

lemma float_round_pos:
  "0 < x \<Longrightarrow>
   float_round x =
     of_int (round_half_even (x / 2 powi (float_exponent x - 52))) * 2 powi (float_exponent x - 52)"
  by (simp add: float_round_def Let_def)

lemma float_round_bounds:
  assumes "0 < x"
  shows "2 powi (float_exponent x) \<le> float_round x \<and>
         float_round x \<le> 2 powi (float_exponent x + 1)"
proof -
  let ?e = "float_exponent x"
  let ?u = "(2::real) powi (?e - 52)"
  have u: "0 < ?u" by simp
  from float_exponent_bounds [OF assms]
  have lo: "2 powi ?e \<le> x" and hi: "x < 2 powi (?e + 1)" by simp_all
  have p52: "(2::real) powi ?e = 2 ^ 52 * ?u" by (rule powi2_52)
  have p53: "(2::real) powi (?e + 1) = 2 ^ 53 * ?u" by (rule powi2_53)
  have "2 ^ 52 * ?u \<le> x" using lo by (simp only: p52)
  then have "real_of_int (2 ^ 52) \<le> x / ?u" using u by (simp add: field_simps)
  from round_half_even_mono [OF this]
  have a: "2 ^ 52 \<le> round_half_even (x / ?u)" by (simp only: round_half_even_of_int)
  have "x < 2 ^ 53 * ?u" using hi by (simp only: p53)
  then have "x / ?u \<le> real_of_int (2 ^ 53)" using u by (simp add: field_simps)
  from round_half_even_mono [OF this]
  have b: "round_half_even (x / ?u) \<le> 2 ^ 53" by (simp only: round_half_even_of_int)
  from a have "real_of_int (2 ^ 52) \<le> real_of_int (round_half_even (x / ?u))"
    by (simp only: of_int_le_iff)
  then have a': "2 ^ 52 * ?u \<le> real_of_int (round_half_even (x / ?u)) * ?u"
    using u by simp
  from b have "real_of_int (round_half_even (x / ?u)) \<le> real_of_int (2 ^ 53)"
    by (simp only: of_int_le_iff)
  then have b': "real_of_int (round_half_even (x / ?u)) * ?u \<le> 2 ^ 53 * ?u"
    using u by simp
  from a' b' show ?thesis by (simp only: float_round_pos [OF assms] p52 p53) 
qed

lemma float_round_gt_0: "0 < x \<Longrightarrow> 0 < float_round x"
proof -
  assume x: "0 < x"
  have "(0::real) < 2 powi (float_exponent x)" by simp
  then show ?thesis using float_round_bounds [OF x, THEN conjunct1] by (rule less_le_trans)
qed

lemma float_round_mono:
  assumes "0 < x" and "x \<le> y"
  shows "float_round x \<le> float_round y"
proof (cases "float_exponent x = float_exponent y")
  case True
  let ?u = "(2::real) powi (float_exponent y - 52)"
  have u: "0 < ?u" by simp
  have y: "0 < y" using assms by simp
  have "x / ?u \<le> y / ?u" using assms(2) u by (simp add: divide_right_mono)
  from round_half_even_mono [OF this]
  have "real_of_int (round_half_even (x / ?u)) \<le> real_of_int (round_half_even (y / ?u))"
    by (simp only: of_int_le_iff)
  then have "real_of_int (round_half_even (x / ?u)) * ?u \<le>
      real_of_int (round_half_even (y / ?u)) * ?u"
    using u by simp
  then show ?thesis by (simp only: float_round_pos [OF assms(1)] float_round_pos [OF y] True)
next
  case False
  have y: "0 < y" using assms by simp
  from False float_exponent_mono [OF assms] have "float_exponent x + 1 \<le> float_exponent y"
    by simp
  then have "(2::real) powi (float_exponent x + 1) \<le> 2 powi (float_exponent y)"
    by (rule power_int_increasing) simp
  with float_round_bounds [OF assms(1)] float_round_bounds [OF y] show ?thesis by simp
qed

lemma float_round_exact:
  assumes "2 ^ 52 \<le> k" and "k \<le> 2 ^ 53"
  shows "float_round (of_int k * 2 powi j) = of_int k * 2 powi j"
proof (cases "k = 2 ^ 53")
  case False
  let ?x = "real_of_int k * 2 powi j"
  have k: "0 < k" using assms by simp
  have pj: "(0::real) < 2 powi j" by simp
  have x: "0 < ?x" using k pj by simp
  have e1: "j + 52 = j + int 52" by simp
  have e2: "j + 52 + 1 = j + int 53" by simp
  have p1: "(2::real) powi (j + 52) = 2 ^ 52 * 2 powi j"
    by (simp only: e1 powi2_add_nat)
  have p2: "(2::real) powi (j + 52 + 1) = 2 ^ 53 * 2 powi j"
    by (simp only: e2 powi2_add_nat)
  have "real_of_int (2 ^ 52) \<le> real_of_int k" using assms(1) by (simp only: of_int_le_iff)
  then have "2 ^ 52 * 2 powi j \<le> ?x" using pj by simp
  then have lo: "2 powi (j + 52) \<le> ?x" by (simp only: p1)
  have "k < 2 ^ 53" using False assms(2) by simp
  then have "real_of_int k < real_of_int (2 ^ 53)" by (simp only: of_int_less_iff)
  then have "?x < 2 ^ 53 * 2 powi j" using pj by simp
  then have hi: "?x < 2 powi (j + 52 + 1)" by (simp only: p2)
  have e: "float_exponent ?x = j + 52" by (rule float_exponent_unique [OF x lo hi])
  have "?x / 2 powi j = real_of_int k" using pj by simp
  then have "round_half_even (?x / 2 powi (j + 52 - 52)) = k"
    by (simp add: round_half_even_of_int)
  then show ?thesis by (simp add: float_round_pos [OF x] e)
next
  case True
  let ?x = "real_of_int k * 2 powi j"
  have pj: "(0::real) < 2 powi j" by simp
  have x: "0 < ?x" using True pj by simp
  have e2: "j + 53 = j + int 53" by simp
  have e3: "j + 53 + 1 = j + int 54" by simp
  have e4: "j + 53 - 52 = j + int 1" by simp
  have p2: "(2::real) powi (j + 53) = 2 ^ 53 * 2 powi j"
    by (simp only: e2 powi2_add_nat)
  have p3: "(2::real) powi (j + 53 + 1) = 2 ^ 54 * 2 powi j"
    by (simp only: e3 powi2_add_nat)
  have p4: "(2::real) powi (j + 53 - 52) = 2 ^ 1 * 2 powi j"
    by (simp only: e4 powi2_add_nat)
  have xe: "?x = 2 ^ 53 * 2 powi j" using True by simp
  have lo: "2 powi (j + 53) \<le> ?x" by (simp only: p2 xe)
  have "?x < 2 ^ 54 * 2 powi j" using pj by (simp add: True)
  then have hi: "?x < 2 powi (j + 53 + 1)" by (simp only: p3)
  have e: "float_exponent ?x = j + 53" by (rule float_exponent_unique [OF x lo hi])
  have "?x / (2 ^ 1 * 2 powi j) = real_of_int (2 ^ 52)" using pj by (simp add: True)
  then have r: "round_half_even (?x / (2 ^ 1 * 2 powi j)) = 2 ^ 52"
    by (simp only: round_half_even_of_int)
  have "float_round ?x = real_of_int (2 ^ 52) * (2 ^ 1 * 2 powi j)"
    by (simp only: float_round_pos [OF x] e p4 r)
  also have "\<dots> = ?x" by (simp add: True)
  finally show ?thesis .
qed

lemma float_round_idem:
  assumes "0 < x"
  shows "float_round (float_round x) = float_round x"
proof -
  let ?e = "float_exponent x"
  let ?u = "(2::real) powi (?e - 52)"
  let ?k = "round_half_even (x / ?u)"
  have u: "0 < ?u" by simp
  from float_exponent_bounds [OF assms]
  have lo: "2 powi ?e \<le> x" and hi: "x < 2 powi (?e + 1)" by simp_all
  have p52: "(2::real) powi ?e = 2 ^ 52 * ?u" by (rule powi2_52)
  have p53: "(2::real) powi (?e + 1) = 2 ^ 53 * ?u" by (rule powi2_53)
  have "2 ^ 52 * ?u \<le> x" using lo by (simp only: p52)
  then have "real_of_int (2 ^ 52) \<le> x / ?u" using u by (simp add: field_simps)
  from round_half_even_mono [OF this]
  have a: "2 ^ 52 \<le> ?k" by (simp only: round_half_even_of_int)
  have "x < 2 ^ 53 * ?u" using hi by (simp only: p53)
  then have "x / ?u \<le> real_of_int (2 ^ 53)" using u by (simp add: field_simps)
  from round_half_even_mono [OF this]
  have b: "?k \<le> 2 ^ 53" by (simp only: round_half_even_of_int)
  show ?thesis
    by (simp only: float_round_pos [OF assms] float_round_exact [OF a b])
qed

lemma float_round_1: "float_round 1 = 1"
  using float_round_exact [of "2 ^ 52" "- 52"] by simp


lemma float_round_ge_1: "1 \<le> x \<Longrightarrow> 1 \<le> float_round x"
  using float_round_mono [of 1 x] by (simp add: float_round_1)

lemma float_of_int_pos: "0 < n \<Longrightarrow> 0 < float_of_int n"
  by (simp add: float_of_int_def float_round_gt_0)

lemma float_of_int_mono: "0 < m \<Longrightarrow> m \<le> n \<Longrightarrow> float_of_int m \<le> float_of_int n"
  by (simp add: float_of_int_def float_round_mono)

lemma float_mul_float_of_int_1: "0 < n \<Longrightarrow> float_mul (float_of_int n) 1 = float_of_int n"
  by (simp add: float_mul_def float_of_int_def float_round_idem)

lemma percentage_ge_1:
  assumes "0 < n" and "n \<le> c"
  shows "1 \<le> float_truediv (float_mul (float_of_int (int c)) 1) (float_of_int (int n))"
proof -
  have n: "0 < int n" and c: "0 < int c" and le: "int n \<le> int c" using assms by simp_all
  have "float_of_int (int n) \<le> float_of_int (int c)" by (rule float_of_int_mono [OF n le])
  then have "1 \<le> float_of_int (int c) / float_of_int (int n)"
    using float_of_int_pos [OF n] by simp
  then show ?thesis
    by (simp only: float_truediv_def float_mul_float_of_int_1 [OF c] float_round_ge_1)
qed

lemma percentage_same:
  assumes "0 < n"
  shows "float_truediv (float_mul (float_of_int (int n)) 1) (float_of_int (int n)) = 1"
proof -
  have n: "0 < int n" using assms by simp
  have "float_of_int (int n) / float_of_int (int n) = 1"
    using float_of_int_pos [OF n] by simp
  then show ?thesis
    by (simp only: float_truediv_def float_mul_float_of_int_1 [OF n] float_round_1)
qed

section \<open>The n-gram suggester\<close>

lemma search_loop_Inr:
  "0 < n \<or> sug = [] \<Longrightarrow>
   search_loop sug n mp =
     Inr (map fst (filter (\<lambda>(s, c).
         float_truediv (float_mul (float_of_int (int c)) 1) (float_of_int (int n)) > mp) sug))"
  by (induction sug) (auto simp: Let_def)

lemma search_leveinshtein_loop_Inr:
  "0 < n \<or> sug = [] \<Longrightarrow>
   search_leveinshtein_loop sug n p mp m =
     Inr (filter (\<lambda>s. int (distance p (take (length p) s)) < m)
            (map fst (filter (\<lambda>(s, c).
         float_truediv (float_mul (float_of_int (int c)) 1) (float_of_int (int n)) > mp) sug)))"
  by (induction sug) (auto simp: Let_def)

lemma tally_Nil: "tally self [] = []"
  by (simp add: tally_def)

lemma tally_total: "0 < length grams \<or> tally self grams = []"
  by (cases grams) (simp_all add: tally_Nil)

text \<open>
  C9. For every index state, prefix, \<open>match_percentage\<close> and
  \<open>max_leveinshtein_distance\<close>, \<open>search\<close> raises nothing, and \<open>search_leveinshtein\<close>
  yields exactly the candidates that \<open>search(prefix, match_percentage)\<close> yields, in the
  same order, whose distance between the prefix and \<open>s[0:len(prefix)]\<close> (the whole
  candidate when it is shorter) is strictly below \<open>max_leveinshtein_distance\<close>.
\<close>

theorem NGramSuggester_search_leveinshtein_filter:
  "\<exists>ys. NGramSuggester_search self p mp = Inr ys \<and>
     NGramSuggester_search_leveinshtein self p mp m =
       Inr (filter (\<lambda>s. int (distance p (take (length p) s)) < m) ys)"
  using tally_total [of "ngrams p (ngram_size self) ''_''" self]
  by (simp add: NGramSuggester_search_def NGramSuggester_search_leveinshtein_def Let_def
      search_loop_Inr search_leveinshtein_loop_Inr)

theorem NGramSuggester_search_leveinshtein_filter_witness:
  "NGramSuggester_search
     (NGramSuggester_index (NGramSuggester_init 2) [''abc'', ''abd'', ''xyz''])
     ''abc'' (1 / 2) = Inr [''abc'', ''abd''] \<and>
   NGramSuggester_search_leveinshtein
     (NGramSuggester_index (NGramSuggester_init 2) [''abc'', ''abd'', ''xyz''])
     ''abc'' (1 / 2) 1 = Inr [''abc'']"
proof -
  let ?self = "NGramSuggester_index (NGramSuggester_init 2) [''abc'', ''abd'', ''xyz'']"
  have s: "NGramSuggester_search ?self ''abc'' (1 / 2) = Inr [''abc'', ''abd'']"
    by code_simp
  have f: "filter (\<lambda>s. int (distance ''abc'' (take (length ''abc'') s)) < 1)
      [''abc'', ''abd''] = [''abc'']"
    by code_simp
  from NGramSuggester_search_leveinshtein_filter [of ?self "''abc''" "1 / 2" 1]
  obtain ys where ys: "NGramSuggester_search ?self ''abc'' (1 / 2) = Inr ys"
    and l: "NGramSuggester_search_leveinshtein ?self ''abc'' (1 / 2) 1 =
      Inr (filter (\<lambda>s. int (distance ''abc'' (take (length ''abc'') s)) < 1) ys)"
    by blast
  from ys s have "ys = [''abc'', ''abd'']" by (simp only: sum.inject)
  with l f have "NGramSuggester_search_leveinshtein ?self ''abc'' (1 / 2) 1 = Inr [''abc'']"
    by (simp only:)
  with s show ?thesis by (rule conjI)
qed





subsection \<open>The score of a string against itself\<close>

lemma bucket_empty: "bucket (\<lambda>x. None) g = []"
  by (simp add: bucket_def)

lemma ngram_inner_bucket:
  "bucket (NGramSuggester.data
     (fold (\<lambda>ngram self.
         self\<lparr>NGramSuggester.data := add_to_bucket (NGramSuggester.data self) ngram s\<rparr>)
       gs self)) g =
   bucket (NGramSuggester.data self) g @ replicate (count_list gs g) s"
  by (induction gs arbitrary: self)
     (auto simp: bucket_add_to_bucket replicate_app_Cons_same)

lemma ngram_inner_size:
  "ngram_size
     (fold (\<lambda>ngram self.
         self\<lparr>NGramSuggester.data := add_to_bucket (NGramSuggester.data self) ngram s\<rparr>)
       gs self) = ngram_size self"
  by (induction gs arbitrary: self) simp_all

lemma NGramSuggester_index_single:
  "bucket (NGramSuggester.data (NGramSuggester_index (NGramSuggester_init k) [s])) g =
     replicate (count_list (ngrams s k ''_'') g) s \<and>
   ngram_size (NGramSuggester_index (NGramSuggester_init k) [s]) = k"
  by (simp add: NGramSuggester_index_def NGramSuggester_init_def ngram_inner_bucket
      ngram_inner_size bucket_empty)

lemma tally_concat:
  "tally self grams =
   fold (\<lambda>s suggestions. increment suggestions s)
     (concat (map (bucket (NGramSuggester.data self)) grams)) []"
proof -
  have "fold (\<lambda>ngram suggestions.
          fold (\<lambda>s suggestions. increment suggestions s)
            (bucket (NGramSuggester.data self) ngram) suggestions) grams acc =
        fold (\<lambda>s suggestions. increment suggestions s)
          (concat (map (bucket (NGramSuggester.data self)) grams)) acc" for acc
    by (induction grams arbitrary: acc) simp_all
  then show ?thesis by (simp add: tally_def)
qed

lemma increment_same: "increment [(s, c)] s = [(s, Suc c)]"
  by simp

lemma fold_increment_replicate_from:
  "fold (\<lambda>x suggestions. increment suggestions x) (replicate k s) [(s, c)] = [(s, c + k)]"
  by (induction k arbitrary: c) (simp_all del: fold_replicate)

lemma fold_increment_replicate:
  "fold (\<lambda>x suggestions. increment suggestions x) (replicate k s) [] =
     (if k = 0 then [] else [(s, k)])"
  by (cases k) (simp_all add: fold_increment_replicate_from del: fold_replicate)

lemma concat_replicate_same:
  "concat (map (\<lambda>g. replicate (f g) s) gs) = replicate (sum_list (map f gs)) s"
  by (induction gs) (simp_all add: replicate_add)

lemma sum_list_ge_length:
  "\<forall>x\<in>set xs. 0 < f x \<Longrightarrow> length xs \<le> sum_list (map f xs)"
proof (induction xs)
  case Nil
  show ?case by simp
next
  case (Cons a xs)
  then have "0 < f a" and "length xs \<le> sum_list (map f xs)" by simp_all
  then show ?case by simp
qed

lemma sum_list_all_one:
  "\<forall>x\<in>set xs. f x = (1::nat) \<Longrightarrow> sum_list (map f xs) = length xs"
  by (induction xs) simp_all

lemma count_list_pos: "x \<in> set xs \<Longrightarrow> 0 < count_list xs x"
  by (induction xs) auto

lemma count_list_distinct: "distinct xs \<Longrightarrow> x \<in> set xs \<Longrightarrow> count_list xs x = 1"
  by (induction xs) (auto simp: count_list_0_iff)

lemma self_overlap_ge: "length gs \<le> sum_list (map (count_list gs) gs)"
  by (rule sum_list_ge_length) (simp add: count_list_pos)

lemma self_overlap_distinct: "distinct gs \<Longrightarrow> sum_list (map (count_list gs) gs) = length gs"
  by (rule sum_list_all_one) (simp add: count_list_distinct)

lemma length_ngrams_2: "length (ngrams s 2 ''_'') = length s"
  using ngrams_windows_str_mul [of 2 "''_''" s, THEN conjunct2, THEN conjunct1] by simp

lemma NGramSuggester_self_search:
  assumes "s \<noteq> []"
  shows "NGramSuggester_search (NGramSuggester_index (NGramSuggester_init 2) [s]) s t =
    Inr (if t < float_truediv
                  (float_mul
                    (float_of_int
                      (int (sum_list (map (count_list (ngrams s 2 ''_'')) (ngrams s 2 ''_'')))))
                    1)
                  (float_of_int (int (length s)))
         then [s] else [])"
proof -
  let ?self = "NGramSuggester_index (NGramSuggester_init 2) [s]"
  let ?gs = "ngrams s 2 ''_''"
  let ?N = "sum_list (map (count_list ?gs) ?gs)"
  have len: "length ?gs = length s" by (rule length_ngrams_2)
  with assms have pos: "0 < length ?gs" by simp
  have "length ?gs \<le> ?N" by (rule self_overlap_ge)
  with pos have "0 < ?N" by (rule less_le_trans)
  then have N: "?N \<noteq> 0" by (rule gr_implies_not0 [THEN not_sym, THEN not_sym])
  have "tally ?self ?gs =
      fold (\<lambda>x suggestions. increment suggestions x)
        (concat (map (\<lambda>g. replicate (count_list ?gs g) s) ?gs)) []"
  proof -
    have "bucket (NGramSuggester.data ?self) = (\<lambda>g. replicate (count_list ?gs g) s)"
      by (rule ext) (simp add: NGramSuggester_index_single)
    then show ?thesis by (simp add: tally_concat)
  qed
  also have "\<dots> = [(s, ?N)]"
    unfolding concat_replicate_same fold_increment_replicate using N by (rule if_not_P)
  finally have tally: "tally ?self ?gs = [(s, ?N)]" .
  show ?thesis
    using pos
    by (simp add: NGramSuggester_search_def Let_def NGramSuggester_index_single tally len)
qed

text \<open>
  C2, as the code has it. For every non-empty string \<open>s\<close>, on the default suggester
  (\<open>ngram_size = 2\<close>) whose corpus is exactly \<open>[s]\<close>, \<open>search(s, t)\<close> yields exactly
  \<open>s\<close> for every \<open>t < 1\<close>; it yields nothing for \<open>t >= 1\<close> when the n-grams of \<open>s\<close> are
  pairwise distinct. In general \<open>gram_count\<close> is the sum, over the n-grams of \<open>s\<close>, of
  the number of occurrences of that n-gram in \<open>s\<close>, \<open>total_grams\<close> is \<open>len(s)\<close>, and
  \<open>search(s, t)\<close> yields \<open>s\<close> exactly when \<open>t\<close> is strictly below the float
  \<open>gram_count * 1.0 / total_grams\<close>, which is at least 1.
\<close>

theorem NGramSuggester_self_match:
  assumes "s \<noteq> []"
  shows "(t < 1 \<longrightarrow>
            NGramSuggester_search (NGramSuggester_index (NGramSuggester_init 2) [s]) s t =
              Inr [s]) \<and>
         (distinct (ngrams s 2 ''_'') \<longrightarrow> 1 \<le> t \<longrightarrow>
            NGramSuggester_search (NGramSuggester_index (NGramSuggester_init 2) [s]) s t =
              Inr []) \<and>
         NGramSuggester_search (NGramSuggester_index (NGramSuggester_init 2) [s]) s t =
           Inr (if t < float_truediv
                         (float_mul
                           (float_of_int
                             (int (sum_list
                               (map (count_list (ngrams s 2 ''_'')) (ngrams s 2 ''_'')))))
                           1)
                         (float_of_int (int (length s)))
                then [s] else []) \<and>
         1 \<le> float_truediv
               (float_mul
                 (float_of_int
                   (int (sum_list (map (count_list (ngrams s 2 ''_'')) (ngrams s 2 ''_'')))))
                 1)
               (float_of_int (int (length s)))"
proof -
  let ?gs = "ngrams s 2 ''_''"
  let ?N = "sum_list (map (count_list ?gs) ?gs)"
  let ?p = "float_truediv (float_mul (float_of_int (int ?N)) 1) (float_of_int (int (length s)))"
  let ?r = "NGramSuggester_search (NGramSuggester_index (NGramSuggester_init 2) [s]) s t"
  have eq: "?r = Inr (if t < ?p then [s] else [])"
    by (rule NGramSuggester_self_search [OF assms])
  have pos: "0 < length s" using assms by simp
  have le: "length s \<le> ?N" using self_overlap_ge [of ?gs] by (simp only: length_ngrams_2)
  have ge: "1 \<le> ?p" by (rule percentage_ge_1 [OF pos le])
  have one: "?p = 1" if "distinct ?gs"
  proof -
    have "?N = length s" using self_overlap_distinct [OF that] by (simp only: length_ngrams_2)
    then show ?thesis by (simp only: percentage_same [OF pos])
  qed
  have a: "?r = Inr [s]" if "t < 1"
  proof -
    from that ge have "t < ?p" by (rule less_le_trans)
    with eq show ?thesis by (simp only: if_True)
  qed
  have b: "?r = Inr []" if "distinct ?gs" "1 \<le> t"
  proof -
    from that(2) have "\<not> t < 1" by simp
    then have "\<not> t < ?p" by (simp add: one [OF that(1)])
    with eq show ?thesis by (simp only: if_False)
  qed
  from a b eq ge show ?thesis by blast
qed

theorem NGramSuggester_self_match_witness:
  "''abc'' \<noteq> [] \<and> distinct (ngrams ''abc'' 2 ''_'') \<and>
   NGramSuggester_search (NGramSuggester_index (NGramSuggester_init 2) [''abc''])
     ''abc'' (1 / 2) = Inr [''abc''] \<and>
   NGramSuggester_search (NGramSuggester_index (NGramSuggester_init 2) [''abc''])
     ''abc'' 1 = Inr [] \<and>
   ''ababx'' \<noteq> [] \<and>
   NGramSuggester_search (NGramSuggester_index (NGramSuggester_init 2) [''ababx''])
     ''ababx'' (3152519739159347 / 2251799813685248) = Inr [] \<and>
   NGramSuggester_search (NGramSuggester_index (NGramSuggester_init 2) [''ababx''])
     ''ababx'' (139 / 100) = Inr [''ababx'']"
proof -
  have h: "''abc'' \<noteq> []" by simp
  have d: "distinct (ngrams ''abc'' 2 ''_'')" by code_simp
  have t: "(1 / 2 :: real) < 1" by simp
  have u: "(1 :: real) \<le> 1" by simp
  note a = NGramSuggester_self_match [OF h, of "1 / 2", THEN conjunct1, rule_format, OF t]
  note b = NGramSuggester_self_match [OF h, of 1, THEN conjunct2, THEN conjunct1,
      rule_format, OF d u]
  have h': "''ababx'' \<noteq> []" by simp
  have n: "sum_list (map (count_list (ngrams ''ababx'' 2 ''_'')) (ngrams ''ababx'' 2 ''_'')) = 7"
    by code_simp
  have l: "length ''ababx'' = 5" by simp
  have p: "float_truediv (float_mul (float_of_int (int 7)) 1) (float_of_int (int 5)) =
      3152519739159347 / 2251799813685248"
    by code_simp
  have c1: "\<not> (3152519739159347 / 2251799813685248 :: real) <
      3152519739159347 / 2251799813685248" by simp
  have c2: "(139 / 100 :: real) < 3152519739159347 / 2251799813685248" by simp
  note e = NGramSuggester_self_match [OF h', THEN conjunct2, THEN conjunct2, THEN conjunct1,
      unfolded n l p]
  have c: "NGramSuggester_search (NGramSuggester_index (NGramSuggester_init 2) [''ababx''])
     ''ababx'' (3152519739159347 / 2251799813685248) = Inr []"
    using e [of "3152519739159347 / 2251799813685248"] c1 by (simp only: if_False)
  have f: "NGramSuggester_search (NGramSuggester_index (NGramSuggester_init 2) [''ababx''])
     ''ababx'' (139 / 100) = Inr [''ababx'']"
    using e [of "139 / 100"] c2 by (simp only: if_True)
  from h d a b h' c f show ?thesis by blast
qed

text \<open>
  The string \<open>'aaa'\<close> has the n-grams \<open>'_a', 'aa', 'aa'\<close>: the bucket of \<open>'aa'\<close> holds
  \<open>'aaa'\<close> twice and is read twice, \<open>gram_count\<close> is 5 and \<open>total_grams\<close> is 3, and the
  string is yielded at \<open>match_percentage = 1.0\<close>.
\<close>

theorem NGramSuggester_self_match_counterexample:
  "NGramSuggester_search (NGramSuggester_index (NGramSuggester_init 2) [''aaa''])
     ''aaa'' 1 = Inr [''aaa'']"
  by code_simp

end
